theory Spec2Isabelle
  imports Main "HOL-Library.Sublist"
begin

section \<open>JSON buffer stream: the data model\<close>

text \<open>
  The class \<^verbatim>\<open>JsonStream\<close> of \<^verbatim>\<open>src/index.ts\<close> frames a text stream into
  lines, classifies every line as a JSON record or as free text and emits one event per
  line. A JavaScript string is a sequence of code units; the model uses \<open>string\<close>, so a
  \<open>char\<close> stands for a code unit below 256 and \<open>length\<close> is the \<^verbatim>\<open>length\<close>
  property of the source.
\<close>

text \<open>
  Values produced by \<^verbatim>\<open>JSON.parse\<close>. Numbers are kept to the integers: no definition
  below computes with them, they are only tested for being zero.
\<close>

datatype json =
    JNull
  | JBool bool
  | JNum int
  | JStr string
  | JArr "json list"
  | JObj "(string \<times> json) list"

text \<open>The truthiness test of \<^verbatim>\<open>if (json)\<close>.\<close>

fun truthy :: "json \<Rightarrow> bool" where
  "truthy JNull = False"
| "truthy (JBool b) = b"
| "truthy (JNum n) = (n \<noteq> 0)"
| "truthy (JStr s) = (s \<noteq> [])"
| "truthy (JArr xs) = True"
| "truthy (JObj kvs) = True"

text \<open>
  A call that may throw: \<open>Throw m\<close> is an exception whose \<^verbatim>\<open>message\<close> is \<open>m\<close>.
\<close>

datatype 'a res = Ok 'a | Throw string

text \<open>
  \<^verbatim>\<open>JSON.parse\<close> and \<^verbatim>\<open>JSON.stringify\<close> belong to the platform, not to the
  repository: every operation takes them as a parameter.
\<close>

type_synonym parser = "string \<Rightarrow> json res"

text \<open>
  What observers receive. \<open>EError m r\<close> is
  \<^verbatim>\<open>emit('error', new Error(m), r)\<close>; \<open>EStreamError m\<close> is an \<^verbatim>\<open>'error'\<close> event
  raised for a fault of a stream handle.
\<close>

datatype event =
    EJson json
  | EText string
  | EError string string
  | EStreamError string
  | EEnd

text \<open>
  Everything a handler does to the outside, in order: events for the observers and
  calls into the optional performance recorder.
\<close>

datatype effect =
    Emit event
  | PerfBegin string
  | PerfEnd string
  | PerfCount string nat

text \<open>
  The fields of the object. \<open>buffer\<close> is the pending buffer; the source leaves it
  \<^verbatim>\<open>undefined\<close> until the first partial line, and \<^verbatim>\<open>undefined\<close> and \<^verbatim>\<open>''\<close> are
  both falsy in the one place that reads it, so both are the empty string here.
  \<open>perf\<close> says whether a recorder is attached, \<open>separate\<close> whether
  \<^verbatim>\<open>streamOut != streamIn\<close>.
\<close>

record json_stream =
  buffer :: string
  perf :: bool
  preserveWhitespace :: bool
  maxLineLength :: int
  EOL :: string
  separate :: bool

definition new_stream :: "bool \<Rightarrow> json_stream" where
  "new_stream sep =
     \<lparr> buffer = [], perf = False, preserveWhitespace = False,
       maxLineLength = 1024 * 1024, EOL = ''\<newline>'', separate = sep \<rparr>"

section \<open>Strings\<close>

text \<open>
  \<^verbatim>\<open>s.split(sep)\<close> for a string separator. The scan goes left to right, \<open>cur\<close>
  holds the segment read so far; at a match the segment is closed and the scan resumes
  after the separator. The empty separator splits into single code units.
\<close>

fun split_scan :: "'a list \<Rightarrow> 'a list \<Rightarrow> 'a list \<Rightarrow> 'a list list" where
  "split_scan sep cur [] = [cur]"
| "split_scan sep cur (c # cs) =
     (if prefix sep (c # cs) then cur # split_scan sep [] (drop (length sep - 1) cs)
      else split_scan sep (cur @ [c]) cs)"

definition split_js :: "'a list \<Rightarrow> 'a list \<Rightarrow> 'a list list" where
  "split_js sep s = (if sep = [] then map (\<lambda>c. [c]) s else split_scan sep [] s)"

text \<open>\<^verbatim>\<open>s.substring(start)\<close>: \<open>start\<close> is clamped to \<open>0 .. length s\<close>.\<close>

definition substring_from :: "'a list \<Rightarrow> int \<Rightarrow> 'a list" where
  "substring_from s start = drop (nat start) s"

text \<open>
  The class \<^verbatim>\<open>\s\<close> of a regular expression, on code units below 256: tab, line
  feed, vertical tab, form feed, carriage return, space and no-break space.
\<close>

definition is_space :: "char \<Rightarrow> bool" where
  "is_space c =
     (c = CHR 0x09 \<or> c = CHR 0x0A \<or> c = CHR 0x0B \<or> c = CHR 0x0C \<or> c = CHR 0x0D
      \<or> c = CHR 0x20 \<or> c = CHR 0xA0)"

text \<open>\<^verbatim>\<open>record.match(/^\s*\{/)\<close>: optional white space, then an opening brace.\<close>

definition recordRegExp :: "string \<Rightarrow> bool" where
  "recordRegExp s = (case dropWhile is_space s of [] \<Rightarrow> False | c # _ \<Rightarrow> c = CHR ''{'')"

text \<open>\<^verbatim>\<open>record.match(/\S/)\<close>: some code unit is not white space.\<close>

definition has_non_space :: "string \<Rightarrow> bool" where
  "has_non_space s = list_ex (\<lambda>c. \<not> is_space c) s"

section \<open>The frame reader\<close>

text \<open>
  The class extends \<^verbatim>\<open>EventEmitter\<close>, whose \<^verbatim>\<open>emit\<close> calls the listeners of an
  event and returns. The event \<^verbatim>\<open>'error'\<close> is special: with no listener registered
  for it, \<^verbatim>\<open>emit\<close> throws, the emitted error object itself when there is one, and
  otherwise an error whose message quotes the emitted value. Listeners are registered
  by the application and the constructor registers none on the object, so every
  handler takes as first argument \<open>listening\<close>, whether the object has a listener for
  \<^verbatim>\<open>'error'\<close>. \<open>thrown\<close> is the message of what \<^verbatim>\<open>emit\<close> throws otherwise. An
  exception that leaves a handler is kept as its message alone, without the effects
  that came before it.
\<close>

definition emit_error :: "bool \<Rightarrow> event \<Rightarrow> string \<Rightarrow> effect list res" where
  "emit_error listening e thrown = (if listening then Ok [Emit e] else Throw thrown)"

text \<open>The message of the error thrown for an emitted text that is not an error object.\<close>

definition unhandled :: "string \<Rightarrow> string" where
  "unhandled text = ''Unhandled error. ('' @ [CHR 0x27] @ text @ [CHR 0x27] @ '')''"

text \<open>
  The body of the \<^verbatim>\<open>for\<close> loop for one record. The decode attempt is the
  \<^verbatim>\<open>try\<close>/\<^verbatim>\<open>catch\<close> of the source: \<open>json\<close> starts as \<^verbatim>\<open>null\<close> and keeps
  that value when the parser throws. The \<^verbatim>\<open>emit\<close> inside the \<^verbatim>\<open>catch\<close> is not
  guarded: what it throws leaves the handler.
\<close>

definition try_parse :: "bool \<Rightarrow> parser \<Rightarrow> string \<Rightarrow> (json \<times> effect list) res" where
  "try_parse listening P record =
     (case P record of
        Ok v \<Rightarrow> Ok (v, [])
      | Throw m \<Rightarrow>
          (case emit_error listening (EError (''JSON Parse Error: '' @ m) record)
                  (''JSON Parse Error: '' @ m) of
             Throw e \<Rightarrow> Throw e
           | Ok caught \<Rightarrow> Ok (JNull, caught)))"

definition handle_record ::
  "bool \<Rightarrow> parser \<Rightarrow> json_stream \<Rightarrow> string \<Rightarrow> nat \<Rightarrow> nat \<Rightarrow> effect list res" where
  "handle_record listening P self record idx len =
     (if recordRegExp record then
        (case try_parse listening P record of
           Throw e \<Rightarrow> Throw e
         | Ok (json, caught) \<Rightarrow>
             Ok ((if perf self then [PerfBegin ''json_stream_parse''] else [])
                 @ caught
                 @ (if perf self
                    then [PerfEnd ''json_stream_parse'',
                          PerfCount ''json_stream_msgs_read'' 1,
                          PerfCount ''json_stream_bytes_read''
                            (length record + length (EOL self))]
                    else [])
                 @ (if truthy json then [Emit (EJson json)] else [])))
      else if preserveWhitespace self \<or> has_non_space record then
        (let text = record @ (if idx < len - 1 then EOL self else [])
         in Ok (if text \<noteq> [] then [Emit (EText text)] else []))
      else Ok [])"

text \<open>
  \<^verbatim>\<open>for (var idx = 0, len = records.length; idx < len; idx++)\<close>, started at
  \<open>idx\<close>. An exception of the body leaves the loop.
\<close>

function records_loop ::
  "bool \<Rightarrow> parser \<Rightarrow> json_stream \<Rightarrow> string list \<Rightarrow> nat \<Rightarrow> nat \<Rightarrow> effect list res" where
  "records_loop listening P self records idx len =
     (if idx < len then
        (case handle_record listening P self (records ! idx) idx len of
           Throw e \<Rightarrow> Throw e
         | Ok tr \<Rightarrow>
             (case records_loop listening P self records (Suc idx) len of
                Throw e \<Rightarrow> Throw e
              | Ok tr' \<Rightarrow> Ok (tr @ tr')))
      else Ok [])"
  by pat_completeness auto
termination
  by (relation "measure (\<lambda>(listening, P, self, records, idx, len). len - idx)") auto

declare records_loop.simps [simp del]

text \<open>
  Lines 46 to 50: a non-empty pending buffer is put in front of the chunk, the result is
  cut to its last \<open>maxLineLength\<close> code units when it is longer, and the buffer is
  cleared.
\<close>

definition incoming :: "json_stream \<Rightarrow> string \<Rightarrow> string" where
  "incoming self chunk =
     (if buffer self \<noteq> [] then
        (let data = buffer self @ chunk
         in if int (length data) > maxLineLength self
            then substring_from data (int (length data) - maxLineLength self)
            else data)
      else chunk)"

text \<open>
  Line 56: the test for a partial last block,
  \<^verbatim>\<open>data.substring(data.length - EOL.length) != EOL\<close>.
\<close>

definition partial_block :: "json_stream \<Rightarrow> string \<Rightarrow> bool" where
  "partial_block self data =
     (substring_from data (int (length data) - int (length (EOL self))) \<noteq> EOL self)"

text \<open>
  The handler of \<^verbatim>\<open>'data'\<close>. \<^verbatim>\<open>records.pop()\<close> removes and returns the last
  element; on an empty array it returns \<^verbatim>\<open>undefined\<close>, which is the empty buffer here.
\<close>

definition data_handler ::
  "bool \<Rightarrow> parser \<Rightarrow> json_stream \<Rightarrow> string \<Rightarrow> (json_stream \<times> effect list) res" where
  "data_handler listening P self chunk =
     (let data = incoming self chunk;
          self1 = (if buffer self \<noteq> [] then self\<lparr>buffer := []\<rparr> else self);
          records = split_js (EOL self1) data;
          popped = partial_block self1 data;
          self2 = (if popped
                   then self1\<lparr>buffer := (if records = [] then [] else last records)\<rparr>
                   else self1);
          records' = (if popped then butlast records else records)
      in case records_loop listening P self2 records' 0 (length records') of
           Throw e \<Rightarrow> Throw e
         | Ok tr \<Rightarrow> Ok (self2, tr))"

text \<open>
  The handlers of \<^verbatim>\<open>'error'\<close> and \<^verbatim>\<open>'end'\<close>. With two handles the message is
  tagged with its origin and a text is emitted; with one handle the error object is
  passed on as it is, and the handle has this one listener.
\<close>

definition on_in_error :: "bool \<Rightarrow> json_stream \<Rightarrow> string \<Rightarrow> effect list res" where
  "on_in_error listening self msg =
     (if separate self
      then emit_error listening (EStreamError (''Error in input stream: '' @ msg))
             (unhandled (''Error in input stream: '' @ msg))
      else emit_error listening (EStreamError msg) msg)"

definition on_out_error :: "bool \<Rightarrow> json_stream \<Rightarrow> string \<Rightarrow> effect list res" where
  "on_out_error listening self msg =
     (if separate self
      then emit_error listening (EStreamError (''Error in output stream: '' @ msg))
             (unhandled (''Error in output stream: '' @ msg))
      else emit_error listening (EStreamError msg) msg)"

definition on_end :: "json_stream \<Rightarrow> effect list" where
  "on_end self = [Emit EEnd]"

text \<open>What the input handle delivers, and the reader run over a sequence of it.\<close>

datatype signal = Data string | InError string | OutError string | End

definition on_signal ::
  "bool \<Rightarrow> parser \<Rightarrow> json_stream \<Rightarrow> signal \<Rightarrow> (json_stream \<times> effect list) res" where
  "on_signal listening P self sg =
     (case sg of
        Data chunk \<Rightarrow> data_handler listening P self chunk
      | InError msg \<Rightarrow>
          (case on_in_error listening self msg of
             Throw e \<Rightarrow> Throw e
           | Ok tr \<Rightarrow> Ok (self, tr))
      | OutError msg \<Rightarrow>
          (case on_out_error listening self msg of
             Throw e \<Rightarrow> Throw e
           | Ok tr \<Rightarrow> Ok (self, tr))
      | End \<Rightarrow> Ok (self, on_end self))"

fun reader ::
  "bool \<Rightarrow> parser \<Rightarrow> json_stream \<Rightarrow> signal list \<Rightarrow> (json_stream \<times> effect list) res" where
  "reader listening P self [] = Ok (self, [])"
| "reader listening P self (sg # sgs) =
     (case on_signal listening P self sg of
        Throw e \<Rightarrow> Throw e
      | Ok (self', tr) \<Rightarrow>
          (case reader listening P self' sgs of
             Throw e \<Rightarrow> Throw e
           | Ok (self'', tr') \<Rightarrow> Ok (self'', tr @ tr')))"

text \<open>
  The reader as its observers see it, with a listener for \<^verbatim>\<open>'error'\<close> registered:
  the handler of \<^verbatim>\<open>'data'\<close> and the run over a sequence of signals.
\<close>

abbreviation on_data ::
  "parser \<Rightarrow> json_stream \<Rightarrow> string \<Rightarrow> (json_stream \<times> effect list) res" where
  "on_data \<equiv> data_handler True"

abbreviation feed ::
  "parser \<Rightarrow> json_stream \<Rightarrow> signal list \<Rightarrow> (json_stream \<times> effect list) res" where
  "feed \<equiv> reader True"

text \<open>The events of a trace, in order.\<close>

fun events :: "effect list \<Rightarrow> event list" where
  "events [] = []"
| "events (Emit e # tr) = e # events tr"
| "events (_ # tr) = events tr"

section \<open>The frame writer\<close>

text \<open>
  \<^verbatim>\<open>write(json, callback)\<close>. \<open>S\<close> is \<^verbatim>\<open>JSON.stringify\<close>, \<open>W\<close> the write primitive
  of the output handle: from the handle's state, the text and the callback it gives the
  backpressure signal and the new state. The result holds what \<^verbatim>\<open>write\<close> returns or
  throws, the state of the output handle and the calls into the recorder.
\<close>

definition write_js ::
  "('v \<Rightarrow> string res) \<Rightarrow> ('o \<Rightarrow> string \<Rightarrow> 'cb option \<Rightarrow> bool \<times> 'o) \<Rightarrow>
   json_stream \<Rightarrow> 'o \<Rightarrow> 'v \<Rightarrow> 'cb option \<Rightarrow> bool res \<times> 'o \<times> effect list" where
  "write_js S W self out json callback =
     (let tr0 = (if perf self then [PerfBegin ''json_stream_compose''] else [])
      in case S json of
           Throw e \<Rightarrow> (Throw e, out, tr0)
         | Ok data \<Rightarrow>
             (let tr1 = (if perf self
                         then [PerfEnd ''json_stream_compose'',
                               PerfCount ''json_stream_msgs_written'' 1,
                               PerfCount ''json_stream_bytes_written''
                                 (length data + length (EOL self))]
                         else []);
                  (result, out') = W out (data @ EOL self) callback;
                  tr2 = (if \<not> result \<and> perf self
                         then [PerfCount ''json_stream_write_buffer'' 1] else [])
              in (Ok result, out', tr0 @ tr1 @ tr2)))"

section \<open>Notions used in the statements\<close>

text \<open>
  A delimiter is unbordered when no proper non-empty prefix of it is also a suffix of
  it, as for a line feed or for carriage return and line feed. Two occurrences of such
  a delimiter never overlap.
\<close>

definition unbordered :: "'a list \<Rightarrow> bool" where
  "unbordered sep =
     (\<forall>k \<in> {1 ..< length sep}. take k sep \<noteq> drop (length sep - k) sep)"

text \<open>
  What the body of the loop does for one record when a listener for \<^verbatim>\<open>'error'\<close> is
  registered; \<open>mid\<close> says whether a later record follows in the same batch
  (\<^verbatim>\<open>idx < len - 1\<close>).
\<close>

definition record_effects :: "parser \<Rightarrow> json_stream \<Rightarrow> string \<Rightarrow> bool \<Rightarrow> effect list" where
  "record_effects P self record mid =
     (case handle_record True P self record 0 (if mid then 2 else 1) of
        Ok tr \<Rightarrow> tr
      | Throw e \<Rightarrow> [])"

text \<open>
  The trace of the loop over a batch of records: every record but the last is followed
  by another one.
\<close>

definition batch_effects :: "parser \<Rightarrow> json_stream \<Rightarrow> string list \<Rightarrow> effect list" where
  "batch_effects P self recs =
     concat (map (\<lambda>i. record_effects P self (recs ! i) (i < length recs - 1))
               [0 ..< length recs])"

text \<open>
  The payload of a text event without its trailing delimiter, and a sequence of events
  read that way, text events with nothing left being dropped.
\<close>

fun strip_eol :: "string \<Rightarrow> event \<Rightarrow> event" where
  "strip_eol sep (EText t) =
     EText (if suffix sep t then take (length t - length sep) t else t)"
| "strip_eol sep e = e"

definition plain :: "string \<Rightarrow> event list \<Rightarrow> event list" where
  "plain sep evs = filter (\<lambda>e. e \<noteq> EText []) (map (strip_eol sep) evs)"

text \<open>The events of one complete line, read that way.\<close>

definition line_events :: "parser \<Rightarrow> json_stream \<Rightarrow> string \<Rightarrow> event list" where
  "line_events P self r =
     (if recordRegExp r then
        (case P r of
           Ok v \<Rightarrow> (if truthy v then [EJson v] else [])
         | Throw m \<Rightarrow> [EError (''JSON Parse Error: '' @ m) r])
      else if (preserveWhitespace self \<or> has_non_space r) \<and> r \<noteq> [] then [EText r]
      else [])"

text \<open>
  The records the loop of the handler goes through for a chunk: the segments of the
  text at hand, without the last one when it is a partial block (lines 52 to 58).
\<close>

definition complete_records :: "json_stream \<Rightarrow> string \<Rightarrow> string list" where
  "complete_records self chunk =
     (let data = incoming self chunk; records = split_js (EOL self) data
      in if partial_block self data then butlast records else records)"

text \<open>
  A sequence of chunks is handled without a cut when, at every chunk, the text the
  handler works on is the whole pending buffer followed by the whole chunk.
\<close>

fun never_cut :: "parser \<Rightarrow> json_stream \<Rightarrow> string list \<Rightarrow> bool" where
  "never_cut P self [] = True"
| "never_cut P self (c # cs) =
     (incoming self c = buffer self @ c \<and>
      (case on_data P self c of
         Ok (self', tr) \<Rightarrow> never_cut P self' cs
       | Throw e \<Rightarrow> False))"

fun is_text :: "event \<Rightarrow> bool" where
  "is_text (EText t) = True"
| "is_text e = False"

text \<open>
  A parser for the examples: it gives what \<^verbatim>\<open>JSON.parse\<close> gives on the two JSON
  documents that occur in them and throws on every other text, as \<^verbatim>\<open>JSON.parse\<close>
  does on the other lines of the examples that reach it.
\<close>

definition sample_parse :: parser where
  \<open>sample_parse s =
     (if s = ''{"a":1}'' then Ok (JObj [(''a'', JNum 1)])
      else if s = ''{"ok":true}'' then Ok (JObj [(''ok'', JBool True)])
      else Throw ''Unexpected token b in JSON at position 1'')\<close>

text \<open>
  A handle that keeps the texts written to it, in order, and answers every write with
  the signal \<open>ok\<close>. With \<open>ok = True\<close> it is a loopback handle that never reports
  backpressure.
\<close>

definition recording :: "bool \<Rightarrow> string list \<Rightarrow> string \<Rightarrow> 'cb option \<Rightarrow> bool \<times> string list" where
  "recording ok out text callback = (ok, out @ [text])"

text \<open>
  Values handed to \<^verbatim>\<open>write\<close> in the examples: a JSON value, or an object that refers
  to itself. The serializer for the examples gives what \<^verbatim>\<open>JSON.stringify\<close> gives on
  the two objects that occur in them, and throws as \<^verbatim>\<open>JSON.stringify\<close> does on a
  cyclic value.
\<close>

datatype jsval = Plain json | Cyclic

definition sample_stringify :: "jsval \<Rightarrow> string res" where
  \<open>sample_stringify v =
     (if v = Plain (JObj [(''a'', JNum 1)]) then Ok ''{"a":1}''
      else if v = Plain (JObj [(''ok'', JBool True)]) then Ok ''{"ok":true}''
      else Throw ''Converting circular structure to JSON'')\<close>

section \<open>Splitting on the delimiter\<close>

lemma split_scan_nonempty [simp]: "split_scan sep cur s \<noteq> []"
  by (induction sep cur s rule: split_scan.induct) auto

lemma split_scan_no_match:
  "\<not> sublist sep s \<Longrightarrow> split_scan sep cur s = [cur @ s]"
  by (induction s arbitrary: cur) (auto simp: sublist_Cons_right)

lemma prefix_within:
  "length xs \<le> length ys \<Longrightarrow> prefix xs (ys @ zs) \<longleftrightarrow> prefix xs ys"
  by (auto simp: prefix_append)

lemma suffix_within:
  "length xs \<le> length zs \<Longrightarrow> suffix xs (ys @ zs) \<longleftrightarrow> suffix xs zs"
  by (auto simp: suffix_append)

lemma split_scan_first:
  assumes "sep \<noteq> []" and "\<forall>i<length a. \<not> prefix sep (drop i a @ sep)"
  shows "split_scan sep cur (a @ sep @ b) = (cur @ a) # split_scan sep [] b"
  using assms(2)
proof (induction a arbitrary: cur)
  case Nil
  obtain c cs where sep: "sep = c # cs" using assms(1) by (cases sep) auto
  show ?case by (simp add: sep)
next
  case (Cons c a)
  have "\<not> prefix sep ((c # a) @ sep)" using Cons.prems by force
  then have "\<not> prefix sep (((c # a) @ sep) @ b)"
    by (subst prefix_within) simp_all
  moreover have "\<forall>i<length a. \<not> prefix sep (drop i a @ sep)"
    using Cons.prems by force
  ultimately show ?case using Cons.IH[of "cur @ [c]"] by simp
qed

lemma first_occurrence:
  assumes "sublist sep s"
  shows "\<exists>a b. s = a @ sep @ b \<and> (\<forall>i<length a. \<not> prefix sep (drop i a @ sep))"
  using assms
proof (induction s)
  case Nil
  then show ?case by simp
next
  case (Cons c s)
  show ?case
  proof (cases "prefix sep (c # s)")
    case True
    then obtain b where "c # s = sep @ b" by (auto simp: prefix_def)
    then show ?thesis by (intro exI[of _ "[]"] exI[of _ b]) simp
  next
    case False
    then have "sublist sep s" using Cons.prems by (simp add: sublist_Cons_right)
    then obtain a b where ab: "s = a @ sep @ b" "\<forall>i<length a. \<not> prefix sep (drop i a @ sep)"
      using Cons.IH by blast
    have "\<not> prefix sep ((c # a) @ sep)"
      using False ab(1) prefix_prefix[of sep "(c # a) @ sep" b] by auto
    then have "\<forall>i<length (c # a). \<not> prefix sep (drop i (c # a) @ sep)"
      using ab(2) by (auto simp: less_Suc_eq_0_disj)
    then show ?thesis using ab(1) by (intro exI[of _ "c # a"] exI[of _ b]) simp
  qed
qed

lemma split_js_none: "\<not> sublist sep s \<Longrightarrow> split_js sep s = [s]"
  by (auto simp: split_js_def split_scan_no_match)

lemma split_js_first:
  "sep \<noteq> [] \<Longrightarrow> \<forall>i<length a. \<not> prefix sep (drop i a @ sep) \<Longrightarrow>
   split_js sep (a @ sep @ b) = a # split_js sep b"
  by (simp add: split_js_def split_scan_first)

lemma split_js_nonempty [simp]: "sep \<noteq> [] \<Longrightarrow> split_js sep s \<noteq> []"
  by (simp add: split_js_def)

lemma split_cases [consumes 1, case_names none first]:
  assumes "sep \<noteq> []"
    and "\<And>s. \<not> sublist sep s \<Longrightarrow> Q s"
    and "\<And>a b. \<forall>i<length a. \<not> prefix sep (drop i a @ sep) \<Longrightarrow> Q b \<Longrightarrow> Q (a @ sep @ b)"
  shows "Q s"
proof (induction "length s" arbitrary: s rule: less_induct)
  case less
  show ?case
  proof (cases "sublist sep s")
    case False
    then show ?thesis by (rule assms(2))
  next
    case True
    then obtain a b where ab: "s = a @ sep @ b" "\<forall>i<length a. \<not> prefix sep (drop i a @ sep)"
      using first_occurrence by blast
    have "length b < length s" using ab(1) assms(1) by simp
    then have "Q b" by (rule less)
    then show ?thesis using ab assms(3) by blast
  qed
qed

lemma first_free:
  assumes "\<forall>i<length a. \<not> prefix sep (drop i a @ sep)" and "sep \<noteq> []"
  shows "\<not> sublist sep a"
proof
  assume "sublist sep a"
  then obtain p q where a: "a = p @ sep @ q" by (auto simp: sublist_def)
  have "length p < length a" using a assms(2) by simp
  then have "\<not> prefix sep (drop (length p) a @ sep)" using assms(1) by blast
  then show False by (simp add: a)
qed

lemma split_js_join:
  assumes "sep \<noteq> []"
  shows "concat (map (\<lambda>r. r @ sep) (butlast (split_js sep s))) @ last (split_js sep s) = s"
  using assms
proof (induction s rule: split_cases)
  case (none s)
  then show ?case by (simp add: split_js_none)
next
  case (first a b)
  then show ?case using assms by (simp add: split_js_first)
qed

lemma split_js_free_all:
  assumes "sep \<noteq> []"
  shows "\<forall>r \<in> set (split_js sep s). \<not> sublist sep r"
  using assms
proof (induction s rule: split_cases)
  case (none s)
  then show ?case by (simp add: split_js_none)
next
  case (first a b)
  have "split_js sep (a @ sep @ b) = a # split_js sep b"
    by (rule split_js_first[OF assms first(1)])
  moreover have "\<not> sublist sep a" by (rule first_free[OF first(1) assms])
  ultimately show ?case using first(2) by simp
qed


lemma split_js_append:
  assumes "sep \<noteq> []"
  shows "split_js sep (x @ y)
         = butlast (split_js sep x) @ split_js sep (last (split_js sep x) @ y)"
  using assms
proof (induction x rule: split_cases)
  case (none s)
  then show ?case by (simp add: split_js_none)
next
  case (first a b)
  have "split_js sep ((a @ sep @ b) @ y) = a # split_js sep (b @ y)"
    using split_js_first[OF assms first(1), of "b @ y"] by simp
  then show ?case using first assms by (simp add: split_js_first)
qed

lemma border_of_overlap:
  assumes "sep @ b = x @ sep" and "b \<noteq> []" and "length b < length sep"
  shows "\<not> unbordered sep"
proof -
  let ?n = "length sep" and ?m = "length b"
  have len: "length x = ?m" using arg_cong[OF assms(1), of length] by simp
  have "take ?n (sep @ b) = take ?n (x @ sep)" using assms(1) by simp
  then have "sep = x @ take (?n - ?m) sep" using len assms(3) by simp
  then have "drop ?m sep = drop ?m (x @ take (?n - ?m) sep)" by simp
  then have "drop ?m sep = take (?n - ?m) sep" using len by simp
  moreover have "?n - ?m \<in> {1 ..< ?n}" using assms(2,3) by (cases b) auto
  moreover have "?n - (?n - ?m) = ?m" using assms(3) by simp
  ultimately show ?thesis unfolding unbordered_def by (metis)
qed

lemma split_js_suffix_last:
  assumes "sep \<noteq> []" and "unbordered sep" and "suffix sep s"
  shows "last (split_js sep s) = []"
  using assms(1,3)
proof (induction s rule: split_cases)
  case (none s)
  then show ?case by auto
next
  case (first a b)
  show ?case
  proof (cases "b = []")
    case True
    have "split_js sep (a @ sep @ []) = a # split_js sep []"
      by (rule split_js_first[OF assms(1) first(1)])
    then show ?thesis using True assms(1) by (simp add: split_js_none)
  next
    case False
    have "suffix sep b"
    proof (cases "length sep \<le> length b")
      case True
      then show ?thesis using first(3) suffix_within[of sep b "a @ sep"] by simp
    next
      case short: False
      have "suffix sep (sep @ b)"
        using first(3) suffix_within[of sep "sep @ b" a] by simp
      then obtain x where "sep @ b = x @ sep" by (auto simp: suffix_def)
      then have "\<not> unbordered sep"
        using False short by (intro border_of_overlap[of sep b x]) auto
      then show ?thesis using assms(2) by simp
    qed
    then show ?thesis using first assms(1) by (simp add: split_js_first)
  qed
qed

section \<open>The loop over the records\<close>

lemma handle_record_Ok:
  "handle_record True P self r idx len = Ok (record_effects P self r (idx < len - 1))"
  by (auto simp: record_effects_def handle_record_def try_parse_def emit_error_def Let_def
           split: res.splits prod.splits)

lemma records_loop_Ok:
  "records_loop True P self recs idx len
   = Ok (concat (map (\<lambda>i. record_effects P self (recs ! i) (i < len - 1)) [idx ..< len]))"
proof (induction "len - idx" arbitrary: idx)
  case 0
  then show ?case by (subst records_loop.simps) simp
next
  case (Suc n)
  then have lt: "idx < len" and n: "n = len - Suc idx" by simp_all
  show ?case
    using lt Suc.hyps(1)[OF n]
    by (subst records_loop.simps) (simp add: handle_record_Ok upt_conv_Cons)
qed

text \<open>The trace of a batch: every record but the last is followed by another one.\<close>

lemma batch_snoc:
  "concat (map (\<lambda>i. record_effects P self ((rs @ [r]) ! i) (i < length (rs @ [r]) - 1))
             [0 ..< length (rs @ [r])])
   = concat (map (\<lambda>x. record_effects P self x True) rs) @ record_effects P self r False"
proof -
  have "map (\<lambda>i. record_effects P self ((rs @ [r]) ! i) (i < length (rs @ [r]) - 1)) [0 ..< length rs]
        = map (\<lambda>i. record_effects P self (rs ! i) True) [0 ..< length rs]"
    by (rule map_cong) (auto simp: nth_append)
  also have "\<dots> = map (\<lambda>x. record_effects P self x True) rs"
    by (rule nth_equalityI) auto
  finally show ?thesis by simp
qed

lemma records_loop_batch:
  "records_loop True P self recs 0 (length recs) = Ok (batch_effects P self recs)"
  by (simp add: records_loop_Ok batch_effects_def)

lemma batch_effects_Nil [simp]: "batch_effects P self [] = []"
  by (simp add: batch_effects_def)

lemma batch_effects_snoc:
  "batch_effects P self (rs @ [r])
   = concat (map (\<lambda>x. record_effects P self x True) rs) @ record_effects P self r False"
  unfolding batch_effects_def by (rule batch_snoc)

lemma handle_record_buffer [simp]:
  "handle_record L P (self\<lparr>buffer := b\<rparr>) r idx len = handle_record L P self r idx len"
  by (auto simp: handle_record_def split: res.splits prod.splits)

lemma record_effects_buffer [simp]:
  "record_effects P (self\<lparr>buffer := b\<rparr>) = record_effects P self"
  by (intro ext) (simp add: record_effects_def)

lemma batch_effects_buffer [simp]:
  "batch_effects P (self\<lparr>buffer := b\<rparr>) = batch_effects P self"
  by (intro ext) (simp add: batch_effects_def)

lemma record_effects_empty [simp]: "record_effects P self [] False = []"
  by (simp add: record_effects_def handle_record_def recordRegExp_def has_non_space_def)

lemma partial_block_iff: "partial_block self data \<longleftrightarrow> \<not> suffix (EOL self) data"
proof -
  have "nat (int (length data) - int (length (EOL self))) = length data - length (EOL self)"
    by simp
  then have "partial_block self data \<longleftrightarrow> drop (length data - length (EOL self)) data \<noteq> EOL self"
    by (simp add: partial_block_def substring_from_def)
  also have "\<dots> \<longleftrightarrow> \<not> suffix (EOL self) data"
    by (metis suffix_drop suffix_take append_take_drop_id length_drop suffixE append_eq_conv_conj
        diff_add_inverse2 length_append suffixI)
  finally show ?thesis .
qed

lemma on_data_popped:
  assumes "\<not> suffix (EOL self) (incoming self chunk)"
  shows "on_data P self chunk
         = Ok (self\<lparr>buffer := last (split_js (EOL self) (incoming self chunk))\<rparr>,
               batch_effects P self (butlast (split_js (EOL self) (incoming self chunk))))"
proof -
  have "EOL self \<noteq> []" using assms by auto
  then have "split_js (EOL self) (incoming self chunk) \<noteq> []" by simp
  then show ?thesis
    using assms by (simp add: data_handler_def Let_def partial_block_iff records_loop_batch)
qed

lemma on_data_whole:
  assumes "suffix (EOL self) (incoming self chunk)"
  shows "on_data P self chunk
         = Ok (self\<lparr>buffer := []\<rparr>,
               batch_effects P self (split_js (EOL self) (incoming self chunk)))"
proof -
  have "buffer self = [] \<Longrightarrow> self\<lparr>buffer := []\<rparr> = self" by simp
  then show ?thesis
    using assms by (auto simp: data_handler_def Let_def partial_block_iff records_loop_batch)
qed

section \<open>Events of complete lines\<close>

lemma events_append [simp]: "events (xs @ ys) = events xs @ events ys"
  by (induction xs rule: events.induct) auto

lemma events_concat: "events (concat xss) = concat (map events xss)"
  by (induction xss) auto

lemma plain_append [simp]: "plain sep (xs @ ys) = plain sep xs @ plain sep ys"
  by (simp add: plain_def)

lemma plain_Nil [simp]: "plain sep [] = []"
  by (simp add: plain_def)

lemma plain_concat: "plain sep (concat xss) = concat (map (plain sep) xss)"
  by (induction xss) auto

lemma line_events_buffer [simp]:
  "line_events P (self\<lparr>buffer := b\<rparr>) = line_events P self"
  by (intro ext) (simp add: line_events_def)

lemma line_events_empty [simp]: "line_events P self [] = []"
  by (simp add: line_events_def recordRegExp_def)

lemma plain_record_mid:
  assumes "EOL self \<noteq> []"
  shows "plain (EOL self) (events (record_effects P self r True)) = line_events P self r"
proof -
  have "suffix (EOL self) (r @ EOL self)" by (simp add: suffix_def)
  then show ?thesis
    using assms
    by (auto simp: record_effects_def handle_record_def try_parse_def emit_error_def line_events_def plain_def
             split: res.splits)
qed

lemma plain_record_last:
  assumes "\<not> suffix (EOL self) r"
  shows "plain (EOL self) (events (record_effects P self r False)) = line_events P self r"
  using assms
  by (auto simp: record_effects_def handle_record_def try_parse_def emit_error_def line_events_def plain_def
           split: res.splits)

lemma plain_batch:
  assumes "EOL self \<noteq> []" and "\<forall>r \<in> set recs. \<not> sublist (EOL self) r"
  shows "plain (EOL self) (events (batch_effects P self recs))
         = concat (map (line_events P self) recs)"
proof (cases recs rule: rev_cases)
  case Nil
  then show ?thesis by simp
next
  case (snoc rs r)
  have "\<not> suffix (EOL self) r" using assms(2) snoc by auto
  then show ?thesis
    using assms(1) snoc
    by (simp add: batch_effects_snoc events_concat plain_concat plain_record_last
        plain_record_mid comp_def)
qed

lemma on_data_step:
  assumes "EOL self \<noteq> []" and "unbordered (EOL self)"
  shows "\<exists>tr. on_data P self chunk
              = Ok (self\<lparr>buffer := last (split_js (EOL self) (incoming self chunk))\<rparr>, tr)
            \<and> plain (EOL self) (events tr)
              = concat (map (line_events P self)
                          (butlast (split_js (EOL self) (incoming self chunk))))"
proof (cases "suffix (EOL self) (incoming self chunk)")
  case True
  let ?recs = "split_js (EOL self) (incoming self chunk)"
  have l: "last ?recs = []" by (rule split_js_suffix_last[OF assms True])
  have free: "\<forall>r \<in> set ?recs. \<not> sublist (EOL self) r"
    by (rule split_js_free_all[OF assms(1)])
  have "butlast ?recs @ [[]] = ?recs"
    using l assms(1) append_butlast_last_id[of ?recs] by simp
  then have "concat (map (line_events P self) ?recs)
             = concat (map (line_events P self) (butlast ?recs @ [[]]))"
    by simp
  then have "concat (map (line_events P self) ?recs)
             = concat (map (line_events P self) (butlast ?recs))"
    by simp
  then show ?thesis
    using on_data_whole[OF True, of P] l plain_batch[OF assms(1) free, of P] by simp
next
  case False
  let ?recs = "split_js (EOL self) (incoming self chunk)"
  have "\<forall>r \<in> set (butlast ?recs). \<not> sublist (EOL self) r"
    using split_js_free_all[OF assms(1), of "incoming self chunk"] in_set_butlastD by fast
  then show ?thesis
    using on_data_popped[OF False, of P] plain_batch[OF assms(1), of "butlast ?recs" P] by simp
qed

section \<open>Chunks\<close>

lemma on_signal_Data [simp]: "on_signal L P self (Data c) = data_handler L P self c"
  by (simp add: on_signal_def)

lemma feed_chunks:
  "chunks \<noteq> [] \<Longrightarrow> EOL self \<noteq> [] \<Longrightarrow> unbordered (EOL self) \<Longrightarrow> never_cut P self chunks \<Longrightarrow>
   \<exists>tr. feed P self (map Data chunks)
          = Ok (self\<lparr>buffer := last (split_js (EOL self) (buffer self @ concat chunks))\<rparr>, tr)
        \<and> plain (EOL self) (events tr)
          = concat (map (line_events P self)
                      (butlast (split_js (EOL self) (buffer self @ concat chunks))))"
proof (induction chunks arbitrary: self rule: list_nonempty_induct)
  case (single c)
  have inc: "incoming self c = buffer self @ c" using single(3) by simp
  obtain tr where tr:
    "on_data P self c = Ok (self\<lparr>buffer := last (split_js (EOL self) (buffer self @ c))\<rparr>, tr)"
    "plain (EOL self) (events tr)
     = concat (map (line_events P self) (butlast (split_js (EOL self) (buffer self @ c))))"
    using on_data_step[OF single(1,2), of P c] inc by auto
  show ?case using tr by simp
next
  case (cons c cs)
  let ?D = "EOL self"
  let ?X = "split_js ?D (buffer self @ c)"
  let ?self' = "self\<lparr>buffer := last ?X\<rparr>"
  let ?Y = "split_js ?D (last ?X @ concat cs)"
  have inc: "incoming self c = buffer self @ c" using cons.prems(3) by simp
  obtain tr1 where tr1:
    "on_data P self c = Ok (?self', tr1)"
    "plain ?D (events tr1) = concat (map (line_events P self) (butlast ?X))"
    using on_data_step[OF cons.prems(1,2), of P c] inc by auto
  have nc: "never_cut P ?self' cs" using cons.prems(3) tr1(1) by simp
  obtain tr2 where tr2:
    "feed P ?self' (map Data cs) = Ok (self\<lparr>buffer := last ?Y\<rparr>, tr2)"
    "plain ?D (events tr2) = concat (map (line_events P self) (butlast ?Y))"
    using cons.IH[of ?self'] cons.prems(1,2) nc by auto
  have Y: "?Y \<noteq> []" using cons.prems(1) by simp
  have "split_js ?D ((buffer self @ c) @ concat cs) = butlast ?X @ ?Y"
    by (rule split_js_append[OF cons.prems(1)])
  then have sp: "split_js ?D (buffer self @ concat (c # cs)) = butlast ?X @ ?Y" by simp
  have "feed P self (map Data (c # cs)) = Ok (self\<lparr>buffer := last ?Y\<rparr>, tr1 @ tr2)"
    using tr1(1) tr2(1) by simp
  moreover have "last (split_js ?D (buffer self @ concat (c # cs))) = last ?Y"
    using sp Y by simp
  moreover have "butlast (split_js ?D (buffer self @ concat (c # cs))) = butlast ?X @ butlast ?Y"
    using sp Y by (simp add: butlast_append)
  ultimately show ?case using tr1(2) tr2(2) by simp
qed

section \<open>Reassembly across chunk boundaries\<close>

lemma plain_keeps_other:
  "filter (\<lambda>e. \<not> is_text e) (plain sep evs) = filter (\<lambda>e. \<not> is_text e) evs"
proof (induction evs)
  case Nil
  then show ?case by simp
next
  case (Cons e evs)
  then show ?case by (cases e) (auto simp: plain_def)
qed

lemma free_first:
  assumes "unbordered sep" and "\<not> sublist sep a"
  shows "\<forall>i<length a. \<not> prefix sep (drop i a @ sep)"
proof (intro allI impI notI)
  fix i assume i: "i < length a" and p: "prefix sep (drop i a @ sep)"
  let ?u = "drop i a"
  show False
  proof (cases "length sep \<le> length ?u")
    case True
    then have "prefix sep ?u" using p prefix_within[of sep ?u sep] by simp
    then have "sublist sep ?u" by simp
    then have "sublist sep a" using sublist_drop[of i a] sublist_order.order_trans by blast
    then show False using assms(2) by simp
  next
    case False
    obtain z where z: "?u @ sep = sep @ z" using p by (auto simp: prefix_def)
    have "length z = length ?u" using arg_cong[OF z, of length] by simp
    then have "z \<noteq> []" "length z < length sep" using i False by auto
    then have "\<not> unbordered sep" using border_of_overlap[of sep z ?u] z by simp
    then show False using assms(1) by simp
  qed
qed

lemma split_js_line:
  assumes "sep \<noteq> []" and "unbordered sep" and "\<not> sublist sep r"
  shows "split_js sep (r @ sep @ s) = r # split_js sep s"
  using split_js_first[OF assms(1) free_first[OF assms(2,3)]] .

lemma split_js_lines:
  assumes "sep \<noteq> []" and "unbordered sep" and "\<forall>r \<in> set rs. \<not> sublist sep r"
  shows "split_js sep (concat (map (\<lambda>r. r @ sep) rs)) = rs @ [[]]"
  using assms(3)
proof (induction rs)
  case Nil
  then show ?case using assms(1) by (simp add: split_js_none)
next
  case (Cons r rs)
  then show ?case using split_js_line[OF assms(1,2), of r] by simp
qed

text \<open>
  Claim C1, as amended. Let the delimiter be non-empty and unbordered, and let a
  non-empty sequence of chunks be handled without a cut, as well as their
  concatenation fed as one chunk. Then both runs leave the same object, emit the same
  JSON and error events in the same order, and emit the same events altogether once
  every text payload is read without its trailing delimiter and text events with
  nothing left are dropped. When the reader starts with an empty pending buffer and
  the concatenation is made of the lines \<open>Ls\<close>, each without a delimiter in it and
  each followed by the delimiter, these events are the events of the lines, in order,
  and the pending buffer is empty at the end.
\<close>

theorem chunking_preserves_lines:
  assumes "EOL self \<noteq> []" and "unbordered (EOL self)" and "chunks \<noteq> []"
    and "never_cut P self chunks" and "never_cut P self [concat chunks]"
    and "feed P self (map Data chunks) = Ok (s1, tr1)"
    and "feed P self [Data (concat chunks)] = Ok (s2, tr2)"
  shows "s1 = s2
         \<and> plain (EOL self) (events tr1) = plain (EOL self) (events tr2)
         \<and> filter (\<lambda>e. \<not> is_text e) (events tr1) = filter (\<lambda>e. \<not> is_text e) (events tr2)
         \<and> (buffer self = [] \<and> concat chunks = concat (map (\<lambda>L. L @ EOL self) Ls)
              \<and> (\<forall>L \<in> set Ls. \<not> sublist (EOL self) L) \<longrightarrow>
            buffer s1 = []
            \<and> plain (EOL self) (events tr1) = concat (map (line_events P self) Ls))"
proof -
  have a: "s1 = self\<lparr>buffer := last (split_js (EOL self) (buffer self @ concat chunks))\<rparr>"
    "plain (EOL self) (events tr1)
       = concat (map (line_events P self)
                   (butlast (split_js (EOL self) (buffer self @ concat chunks))))"
    using feed_chunks[OF assms(3,1,2,4)] assms(6) by auto
  have b: "s2 = self\<lparr>buffer := last (split_js (EOL self) (buffer self @ concat chunks))\<rparr>"
    "plain (EOL self) (events tr2)
       = concat (map (line_events P self)
                   (butlast (split_js (EOL self) (buffer self @ concat chunks))))"
    using feed_chunks[OF _ assms(1,2,5)] assms(7) by auto
  have p: "plain (EOL self) (events tr1) = plain (EOL self) (events tr2)"
    using a(2) b(2) by simp
  have "filter (\<lambda>e. \<not> is_text e) (events tr1)
        = filter (\<lambda>e. \<not> is_text e) (plain (EOL self) (events tr1))"
    by (simp add: plain_keeps_other)
  also have "\<dots> = filter (\<lambda>e. \<not> is_text e) (events tr2)"
    by (simp add: p plain_keeps_other)
  finally have q: "filter (\<lambda>e. \<not> is_text e) (events tr1)
                   = filter (\<lambda>e. \<not> is_text e) (events tr2)" .
  have l: "buffer s1 = [] \<and> plain (EOL self) (events tr1) = concat (map (line_events P self) Ls)"
    if "buffer self = [] \<and> concat chunks = concat (map (\<lambda>L. L @ EOL self) Ls)
        \<and> (\<forall>L \<in> set Ls. \<not> sublist (EOL self) L)"
  proof -
    have "split_js (EOL self) (buffer self @ concat chunks) = Ls @ [[]]"
      using split_js_lines[OF assms(1,2), of Ls] that by simp
    then show ?thesis using a by simp
  qed
  show ?thesis using a(1) b(1) p q l by blast
qed

text \<open>
  Claim C1 as stated fails. With the default settings the text
  \<open>hello\<newline>world\<newline>\<close> in one chunk gives the text events \<open>hello\<newline>\<close> and
  \<open>world\<newline>\<close>, while cut after \<open>wor\<close> it gives \<open>hello\<close> and \<open>world\<newline>\<close>: the
  last record of a batch gets no delimiter back. With \<open>maxLineLength = 4\<close> the line
  \<open>abcdef\<close> arrives whole in one chunk and cut to \<open>def\<close> in two.
\<close>

theorem chunking_changes_events:
  "feed sample_parse (new_stream False) [Data ''hello\<newline>wor'', Data ''ld\<newline>'']
     = Ok (new_stream False, [Emit (EText ''hello''), Emit (EText ''world\<newline>'')])
   \<and> feed sample_parse (new_stream False) [Data ''hello\<newline>world\<newline>'']
     = Ok (new_stream False, [Emit (EText ''hello\<newline>''), Emit (EText ''world\<newline>'')])
   \<and> feed sample_parse ((new_stream False)\<lparr>maxLineLength := 4\<rparr>) [Data ''abc'', Data ''def\<newline>'']
     = Ok ((new_stream False)\<lparr>maxLineLength := 4\<rparr>, [Emit (EText ''def\<newline>'')])
   \<and> feed sample_parse ((new_stream False)\<lparr>maxLineLength := 4\<rparr>) [Data ''abcdef\<newline>'']
     = Ok ((new_stream False)\<lparr>maxLineLength := 4\<rparr>, [Emit (EText ''abcdef\<newline>'')])"
  by code_simp

text \<open>The amended claim C1 at the chunks \<open>hello\<newline>wor\<close> and \<open>ld\<newline>\<close>.\<close>

theorem chunking_preserves_lines_witness:
  "unbordered (EOL (new_stream False))
   \<and> never_cut sample_parse (new_stream False) [''hello\<newline>wor'', ''ld\<newline>'']
   \<and> never_cut sample_parse (new_stream False) [concat [''hello\<newline>wor'', ''ld\<newline>'']]
   \<and> plain (EOL (new_stream False))
         (events [Emit (EText ''hello''), Emit (EText ''world\<newline>'')])
       = plain (EOL (new_stream False))
           (events [Emit (EText ''hello\<newline>''), Emit (EText ''world\<newline>'')])
   \<and> plain (EOL (new_stream False))
         (events [Emit (EText ''hello''), Emit (EText ''world\<newline>'')])
       = concat (map (line_events sample_parse (new_stream False)) [''hello'', ''world''])"
proof -
  let ?s = "new_stream False"
  let ?cs = "[''hello\<newline>wor'', ''ld\<newline>'']"
  have h1: "EOL ?s \<noteq> []" by code_simp
  have h2: "unbordered (EOL ?s)" by code_simp
  have h3: "?cs \<noteq> []" by simp
  have h4: "never_cut sample_parse ?s ?cs" by code_simp
  have h5: "never_cut sample_parse ?s [concat ?cs]" by code_simp
  have h6: "feed sample_parse ?s (map Data ?cs)
            = Ok (?s, [Emit (EText ''hello''), Emit (EText ''world\<newline>'')])"
    by code_simp
  have h7: "feed sample_parse ?s [Data (concat ?cs)]
            = Ok (?s, [Emit (EText ''hello\<newline>''), Emit (EText ''world\<newline>'')])"
    by code_simp
  have h8: "buffer ?s = [] \<and> concat ?cs = concat (map (\<lambda>L. L @ EOL ?s) [''hello'', ''world''])
            \<and> (\<forall>L \<in> set [''hello'', ''world'']. \<not> sublist (EOL ?s) L)"
    by code_simp
  note t = chunking_preserves_lines[where Ls = "[''hello'', ''world'']", OF h1 h2 h3 h4 h5 h6 h7]
  have w1: "plain (EOL ?s) (events [Emit (EText ''hello''), Emit (EText ''world\<newline>'')])
            = plain (EOL ?s) (events [Emit (EText ''hello\<newline>''), Emit (EText ''world\<newline>'')])"
    using t by blast
  have w2: "plain (EOL ?s) (events [Emit (EText ''hello''), Emit (EText ''world\<newline>'')])
            = concat (map (line_events sample_parse ?s) [''hello'', ''world''])"
    using t h8 by blast
  show ?thesis using h2 h4 h5 w1 w2 by (intro conjI)
qed

section \<open>The size of the pending buffer\<close>

lemma incoming_fresh [simp]: "buffer self = [] \<Longrightarrow> incoming self chunk = chunk"
  by (simp add: incoming_def)

lemma incoming_length:
  assumes "buffer self \<noteq> []" and "0 \<le> maxLineLength self"
  shows "int (length (incoming self chunk)) \<le> maxLineLength self"
  using assms by (auto simp: incoming_def Let_def substring_from_def)

lemma split_js_last_length:
  assumes "sep \<noteq> []"
  shows "length (last (split_js sep s)) \<le> length s"
proof -
  have "length (concat (map (\<lambda>r. r @ sep) (butlast (split_js sep s))) @ last (split_js sep s))
        = length s"
    using split_js_join[OF assms, of s] by simp
  then show ?thesis by simp
qed

lemma on_data_buffer_length:
  assumes "on_data P self chunk = Ok (self', tr)"
  shows "length (buffer self') \<le> length (incoming self chunk)"
proof (cases "suffix (EOL self) (incoming self chunk)")
  case True
  then show ?thesis using assms on_data_whole[OF True, of P] by auto
next
  case False
  then have "EOL self \<noteq> []" by auto
  then show ?thesis
    using assms on_data_popped[OF False, of P] split_js_last_length[of "EOL self"] by auto
qed

lemma on_data_no_delimiter:
  assumes "buffer self = []" and "\<not> sublist (EOL self) chunk"
  shows "on_data P self chunk = Ok (self\<lparr>buffer := chunk\<rparr>, [])"
proof -
  have "\<not> suffix (EOL self) (incoming self chunk)" using assms by auto
  then show ?thesis
    using on_data_popped[of self chunk P] assms by (simp add: split_js_none)
qed

text \<open>
  Claim C2, as amended. Let \<open>maxLineLength\<close> be non-negative. A chunk that arrives while
  the pending buffer is non-empty leaves a pending buffer of at most \<open>maxLineLength\<close>
  code units. A chunk that arrives while the pending buffer is empty is not cut: the
  pending buffer it leaves is at most as long as the chunk, and when the chunk holds no
  delimiter it is the whole chunk, with no event emitted.
\<close>

theorem pending_buffer_bound:
  assumes "0 \<le> maxLineLength self" and "on_data P self chunk = Ok (self', tr)"
  shows "(buffer self \<noteq> [] \<longrightarrow> int (length (buffer self')) \<le> maxLineLength self)
       \<and> (buffer self = [] \<longrightarrow> length (buffer self') \<le> length chunk)
       \<and> (buffer self = [] \<and> \<not> sublist (EOL self) chunk \<longrightarrow> buffer self' = chunk \<and> tr = [])"
proof (intro conjI impI)
  assume "buffer self \<noteq> []"
  then show "int (length (buffer self')) \<le> maxLineLength self"
    using incoming_length[OF _ assms(1), of chunk] on_data_buffer_length[OF assms(2)] by simp
next
  assume "buffer self = []"
  then show "length (buffer self') \<le> length chunk"
    using on_data_buffer_length[OF assms(2)] by simp
next
  assume "buffer self = [] \<and> \<not> sublist (EOL self) chunk"
  then show "buffer self' = chunk" using on_data_no_delimiter[of self chunk P] assms(2) by auto
next
  assume "buffer self = [] \<and> \<not> sublist (EOL self) chunk"
  then show "tr = []" using on_data_no_delimiter[of self chunk P] assms(2) by auto
qed

text \<open>
  Claim C2 as stated fails: with \<open>maxLineLength = 4\<close> and an empty pending buffer, the
  chunk \<open>abcdefgh\<close> stays whole in the pending buffer, eight code units and not the last
  four.
\<close>

theorem pending_buffer_exceeds_maximum:
  "on_data sample_parse ((new_stream False)\<lparr>maxLineLength := 4\<rparr>) ''abcdefgh''
     = Ok ((new_stream False)\<lparr>maxLineLength := 4, buffer := ''abcdefgh''\<rparr>, [])
   \<and> int (length ''abcdefgh'') > 4"
  by code_simp

text \<open>
  The amended claim C2 with \<open>maxLineLength = 4\<close>: at the pending buffer \<open>abc\<close> and the
  chunk \<open>defgh\<close>, and at the empty pending buffer and the chunk \<open>abcdefgh\<close>.
\<close>

theorem pending_buffer_bound_witness:
  "on_data sample_parse ((new_stream False)\<lparr>maxLineLength := 4, buffer := ''abc''\<rparr>) ''defgh''
     = Ok ((new_stream False)\<lparr>maxLineLength := 4, buffer := ''efgh''\<rparr>, [])
   \<and> int (length (buffer ((new_stream False)\<lparr>maxLineLength := 4, buffer := ''efgh''\<rparr>))) \<le> 4
   \<and> on_data sample_parse ((new_stream False)\<lparr>maxLineLength := 4\<rparr>) ''abcdefgh''
     = Ok ((new_stream False)\<lparr>maxLineLength := 4, buffer := ''abcdefgh''\<rparr>, [])
   \<and> buffer ((new_stream False)\<lparr>maxLineLength := 4, buffer := ''abcdefgh''\<rparr>) = ''abcdefgh''"
proof -
  let ?s = "(new_stream False)\<lparr>maxLineLength := 4\<rparr>"
  let ?t = "(new_stream False)\<lparr>maxLineLength := 4, buffer := ''abc''\<rparr>"
  let ?t' = "(new_stream False)\<lparr>maxLineLength := 4, buffer := ''efgh''\<rparr>"
  let ?s' = "(new_stream False)\<lparr>maxLineLength := 4, buffer := ''abcdefgh''\<rparr>"
  have m: "0 \<le> maxLineLength ?s" "0 \<le> maxLineLength ?t" by code_simp+
  have a: "on_data sample_parse ?t ''defgh'' = Ok (?t', [])" by code_simp
  have b: "on_data sample_parse ?s ''abcdefgh'' = Ok (?s', [])" by code_simp
  have c: "buffer ?t \<noteq> []" "buffer ?s = []" "\<not> sublist (EOL ?s) ''abcdefgh''"
    "maxLineLength ?t = 4"
    by code_simp+
  show ?thesis
    using pending_buffer_bound[OF m(2) a] pending_buffer_bound[OF m(1) b] a b c
    by simp
qed

section \<open>Classification of a line\<close>



lemma events_record_json:
  assumes "recordRegExp r" and "P r = Ok v"
  shows "events (record_effects P self r mid) = (if truthy v then [EJson v] else [])"
  using assms by (auto simp: record_effects_def handle_record_def try_parse_def emit_error_def)

lemma events_record_error:
  assumes "recordRegExp r" and "P r = Throw m"
  shows "events (record_effects P self r mid) = [EError (''JSON Parse Error: '' @ m) r]"
  using assms by (auto simp: record_effects_def handle_record_def try_parse_def emit_error_def)

lemma unbordered_single [simp]: "unbordered [d]"
  by (simp add: unbordered_def)




section \<open>Isolation of a decode failure\<close>






section \<open>The partial tail of a chunk\<close>

lemma on_data_completes_line:
  assumes "EOL self \<noteq> []" and "unbordered (EOL self)" and "\<not> sublist (EOL self) r"
    and "incoming self chunk = r @ EOL self"
  shows "on_data P self chunk = Ok (self\<lparr>buffer := []\<rparr>, record_effects P self r True)"
proof -
  have sp: "split_js (EOL self) (r @ EOL self) = [r, []]"
    using split_js_line[OF assms(1,2,3), of "[]"] assms(1) by (simp add: split_js_none)
  have "suffix (EOL self) (incoming self chunk)"
    using assms(4) by (simp add: suffix_def)
  then have "on_data P self chunk = Ok (self\<lparr>buffer := []\<rparr>, batch_effects P self [r, []])"
    using on_data_whole[of self chunk P] assms(4) sp by simp
  moreover have "batch_effects P self [r, []] = record_effects P self r True"
    using batch_effects_snoc[of P self "[r]" "[]"] by simp
  ultimately show ?thesis by simp
qed






section \<open>End of input\<close>

lemma record_events_kind:
  "e \<in> set (events (record_effects P self r mid)) \<Longrightarrow> e \<noteq> EEnd \<and> (\<forall>m. e \<noteq> EStreamError m)"
  by (auto simp: record_effects_def handle_record_def try_parse_def emit_error_def Let_def
           split: res.splits if_splits)

lemma batch_events_kind:
  assumes "e \<in> set (events (batch_effects P self recs))"
  shows "e \<noteq> EEnd \<and> (\<forall>m. e \<noteq> EStreamError m)"
proof -
  obtain i where "e \<in> set (events (record_effects P self (recs ! i) (i < length recs - 1)))"
    using assms by (auto simp: batch_effects_def events_concat)
  then show ?thesis by (rule record_events_kind)
qed

text \<open>
  Claim C7, on an object with a listener for \<^verbatim>\<open>'error'\<close>. Let the chunk, with the
  pending buffer in front of it, not end with the delimiter; for a reader with an empty pending buffer that is the chunk itself. When
  end of input follows, the reader emits what the chunk alone emits, which is the
  trace of the segments before the last one, and then one end event, the only one.
  The last segment stays in the pending buffer and nothing is emitted for it.
\<close>

theorem end_drops_partial_line:
  assumes "\<not> suffix (EOL self) (incoming self chunk)"
  shows "(\<exists>tr. feed P self [Data chunk] 
                = Ok (self\<lparr>buffer := last (split_js (EOL self) (incoming self chunk))\<rparr>, tr)
            \<and> feed P self [Data chunk, End]
                = Ok (self\<lparr>buffer := last (split_js (EOL self) (incoming self chunk))\<rparr>,
                      tr @ [Emit EEnd])
            \<and> tr = batch_effects P self (butlast (split_js (EOL self) (incoming self chunk)))
            \<and> events (tr @ [Emit EEnd]) = events tr @ [EEnd]
            \<and> filter (\<lambda>e. e = EEnd) (events (tr @ [Emit EEnd])) = [EEnd])
       \<and> (buffer self = [] \<longrightarrow> incoming self chunk = chunk)"
proof -
  let ?segs = "split_js (EOL self) (incoming self chunk)"
  let ?tr = "batch_effects P self (butlast ?segs)"
  have od: "on_data P self chunk = Ok (self\<lparr>buffer := last ?segs\<rparr>, ?tr)"
    by (rule on_data_popped[OF assms])
  have f1: "feed P self [Data chunk] = Ok (self\<lparr>buffer := last ?segs\<rparr>, ?tr)"
    using od by simp
  have f2: "feed P self [Data chunk, End] = Ok (self\<lparr>buffer := last ?segs\<rparr>, ?tr @ [Emit EEnd])"
    using od by (simp add: on_signal_def on_end_def)
  have "\<forall>e \<in> set (events ?tr). e \<noteq> EEnd" using batch_events_kind by blast
  then have "filter (\<lambda>e. e = EEnd) (events ?tr) = []" by (simp add: filter_empty_conv)
  then have f3: "filter (\<lambda>e. e = EEnd) (events (?tr @ [Emit EEnd])) = [EEnd]" by simp
  show ?thesis using f1 f2 f3 by simp
qed

text \<open>
  Claim C7 with the default settings: after the chunk \<open>{"a":1}\<newline>hel\<close> and end of input,
  the object and the end event are all that is emitted, and \<open>hel\<close> is left pending.
\<close>

theorem end_drops_partial_line_witness:
  \<open>\<not> suffix (EOL (new_stream False)) (incoming (new_stream False) ''{"a":1}\<newline>hel'')
   \<and> feed sample_parse (new_stream False) [Data ''{"a":1}\<newline>hel'', End]
       = Ok ((new_stream False)\<lparr>buffer := ''hel''\<rparr>,
             [Emit (EJson (JObj [(''a'', JNum 1)])), Emit EEnd])\<close>
proof -
  let ?s = "new_stream False"
  have h: \<open>\<not> suffix (EOL ?s) (incoming ?s ''{"a":1}\<newline>hel'')\<close> by code_simp
  have c: \<open>last (split_js (EOL ?s) (incoming ?s ''{"a":1}\<newline>hel'')) = ''hel''\<close>
    \<open>batch_effects sample_parse ?s (butlast (split_js (EOL ?s) (incoming ?s ''{"a":1}\<newline>hel'')))
     = [Emit (EJson (JObj [(''a'', JNum 1)]))]\<close>
    by code_simp+
  have \<open>feed sample_parse ?s [Data ''{"a":1}\<newline>hel'', End]
        = Ok (?s\<lparr>buffer := last (split_js (EOL ?s) (incoming ?s ''{"a":1}\<newline>hel''))\<rparr>,
              batch_effects sample_parse ?s
                (butlast (split_js (EOL ?s) (incoming ?s ''{"a":1}\<newline>hel''))) @ [Emit EEnd])\<close>
    using end_drops_partial_line[OF h, of sample_parse] by blast
  then have \<open>feed sample_parse ?s [Data ''{"a":1}\<newline>hel'', End]
        = Ok (?s\<lparr>buffer := ''hel''\<rparr>, [Emit (EJson (JObj [(''a'', JNum 1)])), Emit EEnd])\<close>
    by (simp only: c append.simps)
  then show ?thesis using h by (intro conjI)
qed

section \<open>The frame writer and the round trip\<close>

lemma write_js_Ok:
  assumes "S v = Ok s"
  shows "\<exists>tr. write_js S W self out v cb
              = (Ok (fst (W out (s @ EOL self) cb)), snd (W out (s @ EOL self) cb), tr)
            \<and> events tr = []"
  using assms by (auto simp: write_js_def Let_def split: prod.splits)

lemma write_js_Throw:
  assumes "S v = Throw e"
  shows "\<exists>tr. write_js S W self out v cb = (Throw e, out, tr) \<and> events tr = []"
  using assms by (auto simp: write_js_def Let_def)

text \<open>
  Claim C9. When the value serializes to the text \<open>s\<close>, \<^verbatim>\<open>write\<close> calls the write
  primitive of the output handle once, with \<open>s\<close> followed by the delimiter and with the
  callback, returns the signal the primitive reports and emits no event. On a handle
  that keeps what is written to it, exactly that text is added.
\<close>

theorem write_forwards:
  assumes "S v = Ok s"
  shows "(\<exists>tr. write_js S W self out v cb
               = (Ok (fst (W out (s @ EOL self) cb)), snd (W out (s @ EOL self) cb), tr)
             \<and> events tr = [])
       \<and> (\<exists>tr. write_js S (recording ok) self texts v cb
               = (Ok ok, texts @ [s @ EOL self], tr))"
proof -
  have "\<exists>tr. write_js S (recording ok) self texts v cb
              = (Ok ok, texts @ [s @ EOL self], tr)"
    using write_js_Ok[where S = S and v = v and s = s and W = "recording ok" and self = self
        and out = texts and cb = cb, OF assms]
    by (auto simp: recording_def)
  then show ?thesis
    using write_js_Ok[where S = S and v = v and s = s and W = W and self = self
        and out = out and cb = cb, OF assms]
    by blast
qed

text \<open>Claim C9 at the object \<open>{"a":1}\<close>, on a handle that reports backpressure.\<close>

theorem write_forwards_witness:
  \<open>sample_stringify (Plain (JObj [(''a'', JNum 1)])) = Ok ''{"a":1}''
   \<and> (\<exists>tr. write_js sample_stringify (recording False) (new_stream False) []
              (Plain (JObj [(''a'', JNum 1)])) (None :: unit option)
            = (Ok False, [''{"a":1}\<newline>''], tr))\<close>
proof -
  have h: \<open>sample_stringify (Plain (JObj [(''a'', JNum 1)])) = Ok ''{"a":1}''\<close> by code_simp
  have e: "EOL (new_stream False) = ''\<newline>''" by code_simp
  have \<open>\<exists>tr. write_js sample_stringify (recording False) (new_stream False) []
              (Plain (JObj [(''a'', JNum 1)])) (None :: unit option)
            = (Ok False, [] @ [''{"a":1}'' @ EOL (new_stream False)], tr)\<close>
    by (rule write_forwards[where S = sample_stringify and v = "Plain (JObj [(''a'', JNum 1)])"
        and s = \<open>''{"a":1}''\<close> and ok = False and self = "new_stream False"
        and texts = "[]" and cb = "None :: unit option", OF h, THEN conjunct2])
  then show ?thesis using h by (simp add: e)
qed

text \<open>
  Claim C8. When the serializer throws, \<^verbatim>\<open>write\<close> throws the same exception: the write
  primitive is not called, the output handle is as it was, and no event is emitted.
\<close>

theorem write_propagates_failure:
  assumes "S v = Throw e"
  shows "\<exists>tr. write_js S W self out v cb = (Throw e, out, tr) \<and> events tr = []"
  by (rule write_js_Throw[where S = S and v = v and e = e, OF assms])

text \<open>Claim C8 at a cyclic value.\<close>

theorem write_propagates_failure_witness:
  "sample_stringify Cyclic = Throw ''Converting circular structure to JSON''
   \<and> (\<exists>tr. write_js sample_stringify (recording True) (new_stream False) [] Cyclic
              (None :: unit option)
            = (Throw ''Converting circular structure to JSON'', [], tr) \<and> events tr = [])"
proof -
  have h: "sample_stringify Cyclic = Throw ''Converting circular structure to JSON''"
    by code_simp
  show ?thesis
    using write_propagates_failure[where S = sample_stringify and v = Cyclic
        and e = "''Converting circular structure to JSON''" and W = "recording True"
        and self = "new_stream False" and out = "[]" and cb = "None :: unit option", OF h] h
    by blast
qed

text \<open>
  Claim C6. Let \<^verbatim>\<open>JSON.stringify\<close> give the text \<open>s\<close> for the object \<open>v\<close>, let \<open>s\<close>
  start as an object does and hold no delimiter, and let \<^verbatim>\<open>JSON.parse\<close> give \<open>v\<close>
  back for \<open>s\<close>. Let the delimiter be non-empty and unbordered, the same for writer
  and reader, and the reader's pending buffer be empty. Then what \<^verbatim>\<open>write\<close> puts on
  a loopback handle, fed to the reader, emits exactly one JSON event, with \<open>v\<close>.
\<close>

theorem round_trip:
  assumes "S v = Ok s" and "P s = Ok v" and "v = JObj kvs" and "recordRegExp s"
    and "EOL w \<noteq> []" and "unbordered (EOL w)" and "\<not> sublist (EOL w) s"
    and "EOL r = EOL w" and "buffer r = []"
  shows "\<exists>trw texts tr. write_js S (recording True) w [] v cb = (Ok True, texts, trw)
                      \<and> feed P r (map Data texts) = Ok (r, tr)
                      \<and> events tr = [EJson v]"
proof -
  obtain trw where wr: "write_js S (recording True) w [] v cb = (Ok True, [s @ EOL w], trw)"
    using write_js_Ok[where S = S and v = v and s = s and W = "recording True" and self = w
        and out = "[]" and cb = cb, OF assms(1)]
    by (auto simp: recording_def)
  have inc: "incoming r (s @ EOL w) = s @ EOL r" using assms(8,9) by simp
  have "on_data P r (s @ EOL w) = Ok (r\<lparr>buffer := []\<rparr>, record_effects P r s True)"
    using on_data_completes_line[of r s "s @ EOL w" P] assms(5,6,7,8) inc by simp
  moreover have "r\<lparr>buffer := []\<rparr> = r" using assms(9) by simp
  ultimately have "feed P r (map Data [s @ EOL w]) = Ok (r, record_effects P r s True)"
    by simp
  moreover have "events (record_effects P r s True) = [EJson v]"
    using events_record_json[where r = s and P = P and v = v, OF assms(4,2)] assms(3) by simp
  ultimately show ?thesis using wr by blast
qed

text \<open>Claim C6 at the object \<open>{"a":1}\<close>, with the default settings.\<close>

theorem round_trip_witness:
  \<open>\<exists>trw texts tr.
      write_js (\<lambda>v. sample_stringify (Plain v)) (recording True) (new_stream False) []
        (JObj [(''a'', JNum 1)]) (None :: unit option) = (Ok True, texts, trw)
      \<and> feed sample_parse (new_stream False) (map Data texts) = Ok (new_stream False, tr)
      \<and> events tr = [EJson (JObj [(''a'', JNum 1)])]\<close>
proof -
  let ?s = "new_stream False"
  have h1: \<open>(\<lambda>v. sample_stringify (Plain v)) (JObj [(''a'', JNum 1)]) = Ok ''{"a":1}''\<close>
    by code_simp
  have h2: \<open>sample_parse ''{"a":1}'' = Ok (JObj [(''a'', JNum 1)])\<close> by code_simp
  have h4: \<open>recordRegExp ''{"a":1}''\<close> by code_simp
  have h5: "EOL ?s \<noteq> []" by code_simp
  have h6: "unbordered (EOL ?s)" by code_simp
  have h7: \<open>\<not> sublist (EOL ?s) ''{"a":1}''\<close> by code_simp
  have h9: "buffer ?s = []" by code_simp
  show ?thesis
    by (rule round_trip[where S = "\<lambda>v. sample_stringify (Plain v)" and P = sample_parse
          and v = "JObj [(''a'', JNum 1)]" and s = \<open>''{"a":1}''\<close> and kvs = "[(''a'', JNum 1)]"
          and w = "new_stream False" and r = "new_stream False",
          OF h1 h2 refl h4 h5 h6 h7 refl h9])
qed

section \<open>The handler with and without a listener for errors\<close>

lemma handle_record_unobserved:
  "handle_record False P self r idx len
   = (if recordRegExp r
      then (case P r of
              Ok v \<Rightarrow> handle_record True P self r idx len
            | Throw m \<Rightarrow> Throw (''JSON Parse Error: '' @ m))
      else handle_record True P self r idx len)"
  by (auto simp: handle_record_def try_parse_def emit_error_def split: res.splits)

lemma records_loop_buffer [simp]:
  "records_loop L P (self\<lparr>buffer := b\<rparr>) recs idx len = records_loop L P self recs idx len"
proof (induction "len - idx" arbitrary: idx)
  case 0
  then show ?case by (simp add: records_loop.simps[of L P _ recs idx len])
next
  case (Suc n)
  then have n: "n = len - Suc idx" by simp
  show ?case
    using Suc.hyps(1)[OF n]
    by (auto simp: records_loop.simps[of L P _ recs idx len] split: res.splits)
qed

lemma records_loop_unobserved_ok:
  assumes "\<forall>i. idx \<le> i \<and> i < len \<longrightarrow> recordRegExp (recs ! i) \<longrightarrow> (\<exists>v. P (recs ! i) = Ok v)"
  shows "records_loop False P self recs idx len = records_loop True P self recs idx len"
  using assms
proof (induction "len - idx" arbitrary: idx)
  case 0
  then show ?case by (simp add: records_loop.simps[of _ P self recs idx len])
next
  case (Suc n)
  then have lt: "idx < len" and n: "n = len - Suc idx" by simp_all
  have here: "handle_record False P self (recs ! idx) idx len
              = handle_record True P self (recs ! idx) idx len"
    using Suc.prems lt by (auto simp: handle_record_unobserved)
  have rest: "records_loop False P self recs (Suc idx) len
              = records_loop True P self recs (Suc idx) len"
    using Suc.hyps(1)[OF n] Suc.prems by simp
  show ?case
    using here rest
    by (auto simp: records_loop.simps[of _ P self recs idx len] split: res.splits)
qed

lemma records_loop_unobserved_throw:
  assumes "idx \<le> i" and "i < len" and "recordRegExp (recs ! i)" and "P (recs ! i) = Throw m"
  shows "\<exists>j m'. idx \<le> j \<and> j < len \<and> recordRegExp (recs ! j) \<and> P (recs ! j) = Throw m'
              \<and> records_loop False P self recs idx len = Throw (''JSON Parse Error: '' @ m')"
  using assms
proof (induction "len - idx" arbitrary: idx)
  case 0
  then show ?case by simp
next
  case (Suc n)
  then have lt: "idx < len" and n: "n = len - Suc idx" by simp_all
  show ?case
  proof (cases "recordRegExp (recs ! idx) \<and> (\<exists>m'. P (recs ! idx) = Throw m')")
    case True
    then obtain m' where m': "P (recs ! idx) = Throw m'" by blast
    have "records_loop False P self recs idx len = Throw (''JSON Parse Error: '' @ m')"
      using True m' lt
      by (simp add: records_loop.simps[of _ P self recs idx len] handle_record_unobserved)
    then show ?thesis using True m' lt by blast
  next
    case False
    then have ne: "i \<noteq> idx" using Suc.prems by auto
    then have le: "Suc idx \<le> i" using Suc.prems(1) by simp
    obtain j m' where j: "Suc idx \<le> j" "j < len" "recordRegExp (recs ! j)"
      "P (recs ! j) = Throw m'"
      "records_loop False P self recs (Suc idx) len = Throw (''JSON Parse Error: '' @ m')"
      using Suc.hyps(1)[OF n le Suc.prems(2,3,4)] by blast
    have here: "handle_record False P self (recs ! idx) idx len
                = Ok (record_effects P self (recs ! idx) (idx < len - 1))"
      using False by (auto simp: handle_record_unobserved handle_record_Ok split: res.splits)
    have "records_loop False P self recs idx len = Throw (''JSON Parse Error: '' @ m')"
      using here j(5) lt by (simp add: records_loop.simps[of _ P self recs idx len])
    moreover have "idx \<le> j" using j(1) by simp
    ultimately show ?thesis using j(2,3,4) by blast
  qed
qed

lemma partial_block_buffer [simp]:
  "partial_block (self\<lparr>buffer := b\<rparr>) data = partial_block self data"
  by (simp add: partial_block_def)

lemma data_handler_loop:
  "data_handler L P self chunk
   = (case records_loop L P self (complete_records self chunk) 0
             (length (complete_records self chunk)) of
        Throw e \<Rightarrow> Throw e
      | Ok tr \<Rightarrow>
          Ok (self\<lparr>buffer := (if partial_block self (incoming self chunk)
                               then last (split_js (EOL self) (incoming self chunk))
                               else [])\<rparr>, tr))"
proof -
  have ne: "split_js (EOL self) (incoming self chunk) \<noteq> []"
    if "partial_block self (incoming self chunk)"
  proof -
    have "\<not> suffix (EOL self) (incoming self chunk)" using that by (simp add: partial_block_iff)
    then have "EOL self \<noteq> []" by auto
    then show ?thesis by simp
  qed
  show ?thesis
  proof (cases "buffer self = []")
    case True
    then have "self\<lparr>buffer := []\<rparr> = self" by simp
    then show ?thesis
      using True ne
      by (cases "partial_block self (incoming self chunk)")
         (auto simp: data_handler_def complete_records_def Let_def split: res.splits)
  next
    case False
    then show ?thesis
      using ne
      by (cases "partial_block self (incoming self chunk)")
         (auto simp: data_handler_def complete_records_def Let_def split: res.splits)
  qed
qed

lemma on_data_trace:
  "\<exists>b. on_data P self chunk
        = Ok (self\<lparr>buffer := b\<rparr>, batch_effects P self (complete_records self chunk))"
  by (cases "partial_block self (incoming self chunk)")
     (auto simp: data_handler_loop records_loop_batch)

lemma batch_events_error:
  assumes "r \<in> set recs" and "recordRegExp r" and "P r = Throw m"
  shows "EError (''JSON Parse Error: '' @ m) r \<in> set (events (batch_effects P self recs))"
proof -
  obtain i where i: "i < length recs" "recs ! i = r"
    using assms(1) by (auto simp: in_set_conv_nth)
  have "events (record_effects P self (recs ! i) (i < length recs - 1))
        = [EError (''JSON Parse Error: '' @ m) r]"
    using events_record_error[where r = r and P = P and m = m, OF assms(2,3)] i(2) by simp
  then show ?thesis
    using i(1) by (auto simp: batch_effects_def events_concat intro!: bexI[of _ i])
qed

lemma data_handler_unobserved_ok:
  assumes "\<forall>r \<in> set (complete_records self chunk). recordRegExp r \<longrightarrow> (\<exists>v. P r = Ok v)"
  shows "data_handler False P self chunk = on_data P self chunk"
proof -
  have "records_loop False P self (complete_records self chunk) 0
          (length (complete_records self chunk))
        = records_loop True P self (complete_records self chunk) 0
            (length (complete_records self chunk))"
    using assms by (intro records_loop_unobserved_ok) auto
  then show ?thesis by (simp add: data_handler_loop)
qed

lemma data_handler_unobserved_throw:
  assumes "r \<in> set (complete_records self chunk)" and "recordRegExp r" and "P r = Throw m"
  shows "\<exists>r' \<in> set (complete_records self chunk). \<exists>m'. recordRegExp r' \<and> P r' = Throw m'
           \<and> data_handler False P self chunk = Throw (''JSON Parse Error: '' @ m')"
proof -
  let ?recs = "complete_records self chunk"
  obtain i where i: "i < length ?recs" "?recs ! i = r"
    using assms(1) by (auto simp: in_set_conv_nth)
  obtain j m' where j: "j < length ?recs" "recordRegExp (?recs ! j)" "P (?recs ! j) = Throw m'"
    "records_loop False P self ?recs 0 (length ?recs) = Throw (''JSON Parse Error: '' @ m')"
    using records_loop_unobserved_throw[of 0 i "length ?recs" ?recs P m self] i assms(2,3)
    by auto
  have "data_handler False P self chunk = Throw (''JSON Parse Error: '' @ m')"
    using j(4) by (simp add: data_handler_loop)
  then show ?thesis using j(1,2,3) nth_mem[OF j(1)] by blast
qed

lemma on_data_Ok: "\<exists>self' tr. on_data P self chunk = Ok (self', tr)"
  using on_data_trace[of P self chunk] by blast

lemma on_signal_Ok: "\<exists>self' tr. on_signal True P self sg = Ok (self', tr)"
proof (cases sg)
  case (Data chunk)
  then show ?thesis using on_data_Ok[of P self chunk] by simp
qed (simp_all add: on_signal_def on_in_error_def on_out_error_def emit_error_def)

lemma feed_Ok: "\<exists>self' tr. feed P self sgs = Ok (self', tr)"
proof (induction sgs arbitrary: self)
  case Nil
  then show ?case by simp
next
  case (Cons sg sgs)
  obtain s1 t1 where 1: "on_signal True P self sg = Ok (s1, t1)" using on_signal_Ok by blast
  obtain s2 t2 where 2: "feed P s1 sgs = Ok (s2, t2)" using Cons.IH by blast
  show ?case using 1 2 by simp
qed


text \<open>
  Claim C10, as amended. Let a listener for \<^verbatim>\<open>'error'\<close> be registered on the object.
  Then for every parser, every state of the object, whatever its delimiter,
  \<open>maxLineLength\<close> and \<open>preserveWhitespace\<close>, and every chunk, the handler of a chunk
  returns a new state and a trace, and for every record of the chunk that passes the
  pre-check and on which the parser throws, the trace holds the error event with that
  record; a run over any sequence of chunks, errors and end of input returns as well.
  Without such a listener, the state the constructor leaves, the handler returns, with
  the same result, when the parser throws on no record of the chunk that passes the
  pre-check; otherwise the parse error of such a record is thrown out of the handler.
\<close>

theorem handler_returns:
  "(\<exists>self' tr. on_data P self chunk = Ok (self', tr)
       \<and> (\<forall>r \<in> set (complete_records self chunk). \<forall>m.
             recordRegExp r \<and> P r = Throw m \<longrightarrow>
             EError (''JSON Parse Error: '' @ m) r \<in> set (events tr)))
   \<and> (\<exists>self' tr. feed P self sgs = Ok (self', tr))
   \<and> ((\<forall>r \<in> set (complete_records self chunk). recordRegExp r \<longrightarrow> (\<exists>v. P r = Ok v)) \<longrightarrow>
        data_handler False P self chunk = on_data P self chunk)
   \<and> ((\<exists>r \<in> set (complete_records self chunk). \<exists>m. recordRegExp r \<and> P r = Throw m) \<longrightarrow>
        (\<exists>r \<in> set (complete_records self chunk). \<exists>m. recordRegExp r \<and> P r = Throw m
           \<and> data_handler False P self chunk = Throw (''JSON Parse Error: '' @ m)))"
proof -
  obtain b where od:
    "on_data P self chunk
     = Ok (self\<lparr>buffer := b\<rparr>, batch_effects P self (complete_records self chunk))"
    using on_data_trace by blast
  have 1: "\<exists>self' tr. on_data P self chunk = Ok (self', tr)
       \<and> (\<forall>r \<in> set (complete_records self chunk). \<forall>m.
             recordRegExp r \<and> P r = Throw m \<longrightarrow>
             EError (''JSON Parse Error: '' @ m) r \<in> set (events tr))"
    using od batch_events_error[of _ "complete_records self chunk" P _ self] by blast
  have 2: "\<exists>self' tr. feed P self sgs = Ok (self', tr)" by (rule feed_Ok)
  have 3: "data_handler False P self chunk = on_data P self chunk"
    if "\<forall>r \<in> set (complete_records self chunk). recordRegExp r \<longrightarrow> (\<exists>v. P r = Ok v)"
    using that by (rule data_handler_unobserved_ok)
  have 4: "\<exists>r \<in> set (complete_records self chunk). \<exists>m. recordRegExp r \<and> P r = Throw m
           \<and> data_handler False P self chunk = Throw (''JSON Parse Error: '' @ m)"
    if "\<exists>r \<in> set (complete_records self chunk). \<exists>m. recordRegExp r \<and> P r = Throw m"
    using that data_handler_unobserved_throw[of _ self chunk P] by blast
  show ?thesis using 1 2 3 4 by blast
qed

text \<open>
  Claim C10 as stated fails: the constructor registers no listener for \<^verbatim>\<open>'error'\<close>,
  and on such an object the chunk \<open>{bad json}\<newline>hello\<newline>\<close> makes the handler throw the
  parse error of its first line.
\<close>

theorem handler_throws_unobserved:
  "data_handler False sample_parse (new_stream False) ''{bad json}\<newline>hello\<newline>''
   = Throw ''JSON Parse Error: Unexpected token b in JSON at position 1''"
  by code_simp

text \<open>
  The amended claim C10 with the default settings: the chunk \<open>{bad json}\<newline>hello\<newline>\<close> on an
  object with a listener for \<^verbatim>\<open>'error'\<close>, and the chunk \<open>hello\<newline>\<close> on an object
  without one.
\<close>

theorem handler_returns_witness:
  "on_data sample_parse (new_stream False) ''{bad json}\<newline>hello\<newline>''
     = Ok (new_stream False,
           [Emit (EError ''JSON Parse Error: Unexpected token b in JSON at position 1''
                    ''{bad json}''),
            Emit (EText ''hello\<newline>'')])
   \<and> ''{bad json}'' \<in> set (complete_records (new_stream False) ''{bad json}\<newline>hello\<newline>'')
   \<and> EError ''JSON Parse Error: Unexpected token b in JSON at position 1'' ''{bad json}''
       \<in> set (events
                [Emit (EError ''JSON Parse Error: Unexpected token b in JSON at position 1''
                         ''{bad json}''),
                 Emit (EText ''hello\<newline>'')])
   \<and> data_handler False sample_parse (new_stream False) ''hello\<newline>''
       = on_data sample_parse (new_stream False) ''hello\<newline>''
   \<and> on_data sample_parse (new_stream False) ''hello\<newline>''
       = Ok (new_stream False, [Emit (EText ''hello\<newline>'')])"
proof -
  let ?s = "new_stream False"
  let ?m = "''Unexpected token b in JSON at position 1''"
  let ?tr = "[Emit (EError ''JSON Parse Error: Unexpected token b in JSON at position 1''
                      ''{bad json}''),
              Emit (EText ''hello\<newline>'')]"
  have a: "on_data sample_parse ?s ''{bad json}\<newline>hello\<newline>'' = Ok (?s, ?tr)" by code_simp
  have b: "''{bad json}'' \<in> set (complete_records ?s ''{bad json}\<newline>hello\<newline>'')"
    by code_simp
  have c: "recordRegExp ''{bad json}'' \<and> sample_parse ''{bad json}'' = Throw ?m"
    by code_simp
  have "complete_records ?s ''hello\<newline>'' = [''hello'', []]"
    "\<not> recordRegExp ''hello''" "\<not> recordRegExp []"
    by code_simp+
  then have d: "\<forall>r \<in> set (complete_records ?s ''hello\<newline>'').
             recordRegExp r \<longrightarrow> (\<exists>v. sample_parse r = Ok v)"
    by simp
  have e: "on_data sample_parse ?s ''hello\<newline>'' = Ok (?s, [Emit (EText ''hello\<newline>'')])"
    by code_simp
  note t1 = handler_returns[where P = sample_parse and self = ?s
      and chunk = "''{bad json}\<newline>hello\<newline>''" and sgs = "[]"]
  obtain self' tr where t: "on_data sample_parse ?s ''{bad json}\<newline>hello\<newline>'' = Ok (self', tr)"
    "\<forall>r \<in> set (complete_records ?s ''{bad json}\<newline>hello\<newline>''). \<forall>m.
        recordRegExp r \<and> sample_parse r = Throw m \<longrightarrow>
        EError (''JSON Parse Error: '' @ m) r \<in> set (events tr)"
    using t1 by blast
  have "tr = ?tr" using t(1) a by simp
  moreover have "EError (''JSON Parse Error: '' @ ?m) ''{bad json}'' \<in> set (events tr)"
    using t(2) b c by blast
  ultimately have w3: "EError ''JSON Parse Error: Unexpected token b in JSON at position 1''
                         ''{bad json}'' \<in> set (events ?tr)"
    by simp
  have w4: "data_handler False sample_parse ?s ''hello\<newline>'' = on_data sample_parse ?s ''hello\<newline>''"
    using handler_returns[where P = sample_parse and self = ?s and chunk = "''hello\<newline>''"
        and sgs = "[]"] d
    by blast
  show ?thesis using a b w3 w4 e by (intro conjI)
qed

end
